theory Spec2Isabelle
  imports Complex_Main
begin

section \<open>Python primitives used by the scoring code\<close>

text \<open>
  The scoring code is Python. Its integers are unbounded (\<open>int\<close>), its strings are
  sequences of code points. A text is modelled as a \<open>string\<close> whose characters are the
  code points below 256 (ASCII and the Latin-1 supplement); every keyword of the
  repository is plain ASCII. A float is a double and is modelled by the real number it
  stands for; the literal \<open>0.1\<close> is read as the decimal. Exceptions are values of the
  type \<open>error\<close>.
\<close>

datatype error = KeyError | ZeroDivisionError | OverflowError

type_synonym ('k, 'v) dict = "('k \<times> 'v) list"

text \<open>
  \<open>d[k]\<close> raises \<open>KeyError\<close> for a key that is not in the dictionary; \<open>d[k] = v\<close>
  replaces the value of a key that is present and appends a new key at the end
  (dictionaries keep insertion order); \<open>d.values()\<close> lists the values in that order.
\<close>

definition getitem :: "('k, 'v) dict \<Rightarrow> 'k \<Rightarrow> error + 'v" where
  "getitem d k = (case map_of d k of None \<Rightarrow> Inl KeyError | Some v \<Rightarrow> Inr v)"

fun setitem :: "('k, 'v) dict \<Rightarrow> 'k \<Rightarrow> 'v \<Rightarrow> ('k, 'v) dict" where
  "setitem [] k v = [(k, v)]"
| "setitem ((k', v') # d) k v =
     (if k' = k then (k, v) # d else (k', v') # setitem d k v)"

definition dict_values :: "('k, 'v) dict \<Rightarrow> 'v list" where
  "dict_values d = map snd d"

text \<open>
  \<open>str.lower()\<close> on code points below 256: the letters A-Z and the capital letters of
  the Latin-1 supplement (192-222 without the multiplication sign 215) move up by 32,
  every other code point stays.
\<close>

definition lower_char :: "char \<Rightarrow> char" where
  "lower_char c =
     (let n = (of_char c :: nat)
      in if (65 \<le> n \<and> n \<le> 90) \<or> (192 \<le> n \<and> n \<le> 222 \<and> n \<noteq> 215)
         then char_of (n + 32) else c)"

definition str_lower :: "string \<Rightarrow> string" where
  "str_lower s = map lower_char s"

text \<open>
  \<open>s.count(sub)\<close>: the scan goes from left to right; where \<open>sub\<close> matches, the match is
  counted and the scan resumes behind it, otherwise it moves on by one character. For the
  empty \<open>sub\<close> Python answers \<open>len(s) + 1\<close>.
\<close>

fun startswith :: "string \<Rightarrow> string \<Rightarrow> bool" where
  "startswith s [] = True"
| "startswith [] (k # ks) = False"
| "startswith (c # cs) (k # ks) = (c = k \<and> startswith cs ks)"

fun count_scan :: "string \<Rightarrow> string \<Rightarrow> nat" where
  "count_scan [] sub = 0"
| "count_scan (c # cs) sub =
     (if sub \<noteq> [] \<and> startswith (c # cs) sub
      then Suc (count_scan (drop (length sub - 1) cs) sub)
      else count_scan cs sub)"

definition str_count :: "string \<Rightarrow> string \<Rightarrow> int" where
  "str_count s sub = (if sub = [] then int (length s) + 1 else int (count_scan s sub))"

text \<open>
  An exception leaves the enclosing computation at once: a step that raised passes its
  error on, a step that returned hands its value to the rest.
\<close>

definition and_then :: "error + 'a \<Rightarrow> ('a \<Rightarrow> error + 'b) \<Rightarrow> error + 'b" where
  "and_then r f = (case r of Inl e \<Rightarrow> Inl e | Inr v \<Rightarrow> f v)"

text \<open>
  \<open>a / b\<close> on integers is true division: it raises \<open>ZeroDivisionError\<close> on a zero
  divisor, and else returns the double nearest to the quotient, of two nearest ones the
  one with the even significand; a quotient that rounds beyond the largest double raises
  \<open>OverflowError\<close>. A double has a significand of 53 bits and an exponent of at least
  -1022, so the quotient is rounded to a multiple of \<open>2 ^ q\<close> with
  \<open>q = max e (-1022) - 52\<close>, where \<open>2 ^ e\<close> is the largest power of two that does not
  exceed the absolute value of the quotient. \<open>bit_length\<close> is \<open>int.bit_length()\<close>;
  \<open>floor_log2 n d\<close> is that \<open>e\<close> for the quotient of two positive integers;
  \<open>round_half_even n d\<close> is the integer nearest to \<open>n / d\<close>, ties to even.
\<close>

function bit_length :: "int \<Rightarrow> int" where
  "bit_length n = (if n \<le> 0 then 0 else 1 + bit_length (n div 2))"
  by pat_completeness auto
termination
  by (relation "measure nat") auto

declare bit_length.simps [simp del]

definition floor_log2 :: "int \<Rightarrow> int \<Rightarrow> int" where
  "floor_log2 n d =
     (if d \<le> n then bit_length (n div d) - 1 else - bit_length ((d - 1) div n))"

definition round_half_even :: "int \<Rightarrow> int \<Rightarrow> int" where
  "round_half_even n d =
     (let q = n div d; r = n mod d
      in if 2 * r < d then q
         else if d < 2 * r then q + 1
         else if even q then q else q + 1)"

definition nearest_double :: "int \<Rightarrow> int \<Rightarrow> real" where
  "nearest_double a b =
     (if a = 0 \<or> b = 0 then 0
      else
        let n = \<bar>a\<bar>; d = \<bar>b\<bar>;
            q = max (floor_log2 n d) (- 1022) - 52;
            x = (if 0 \<le> q
                 then real_of_int (round_half_even n (d * 2 ^ nat q) * 2 ^ nat q)
                 else real_of_int (round_half_even (n * 2 ^ nat (- q)) d) / 2 ^ nat (- q))
        in if (a < 0) = (b < 0) then x else - x)"

definition truediv :: "int \<Rightarrow> int \<Rightarrow> error + real" where
  "truediv a b =
     (if b = 0 then Inl ZeroDivisionError
      else if 2 ^ 1024 \<le> \<bar>nearest_double a b\<bar> then Inl OverflowError
      else Inr (nearest_double a b))"

section \<open>label.py\<close>

text \<open>
  The three score columns are read from the CSV file as pandas \<open>int64\<close> columns, and
  \<open>df["env_score"] + df["soc_score"] + df["gov_score"]\<close> adds them row by row in
  64-bit two's complement arithmetic, which wraps around.
\<close>

definition wrap_int64 :: "int \<Rightarrow> int" where
  "wrap_int64 x = (x + 2 ^ 63) mod 2 ^ 64 - 2 ^ 63"

definition total_esg :: "int \<Rightarrow> int \<Rightarrow> int \<Rightarrow> int" where
  "total_esg env_score soc_score gov_score =
     wrap_int64 (wrap_int64 (env_score + soc_score) + gov_score)"

definition label_esg :: "int \<Rightarrow> string" where
  "label_esg score =
     (if score < 200 then ''Low''
      else if score < 600 then ''Medium''
      else ''High'')"

section \<open>dataset\_create.py\<close>

definition ESG_KEYWORDS :: "(string, string list) dict" where
  "ESG_KEYWORDS =
     [(''environment'', [''carbon'', ''emission'', ''renewable'', ''energy'', ''waste'', ''climate'']),
      (''social'', [''job'', ''community'', ''health'', ''education'', ''safety'']),
      (''governance'', [''ethics'', ''compliance'', ''transparency'', ''policy'', ''audit''])]"

text \<open>\<open>sum(text.count(w) for w in keywords)\<close>\<close>

definition keyword_sum :: "string \<Rightarrow> string list \<Rightarrow> int" where
  "keyword_sum text keywords = sum_list (map (str_count text) keywords)"

definition extract_features :: "string \<Rightarrow> error + (string, int) dict" where
  "extract_features text0 =
     (let text = str_lower text0 in
      and_then (getitem ESG_KEYWORDS ''environment'') (\<lambda>env.
      and_then (getitem ESG_KEYWORDS ''social'') (\<lambda>soc.
      and_then (getitem ESG_KEYWORDS ''governance'') (\<lambda>gov.
      Inr [(''env_score'', keyword_sum text env),
           (''soc_score'', keyword_sum text soc),
           (''gov_score'', keyword_sum text gov)]))))"

section \<open>tests/prediction\_validator.py\<close>

text \<open>The keyword table that \<open>ESGPredictionValidator.__init__\<close> stores in \<open>self\<close>.\<close>

definition esg_keywords :: "(string, string list) dict" where
  "esg_keywords =
     [(''environment'', [''renewable'', ''solar'', ''carbon'', ''emission'', ''sustainable'', ''green'',
                         ''climate'', ''energy'', ''waste'', ''recycling'', ''biodiversity'', ''pollution'']),
      (''social'', [''community'', ''jobs'', ''employment'', ''health'', ''education'', ''safety'',
                    ''diversity'', ''inclusion'', ''human rights'', ''workers'', ''training'', ''welfare'']),
      (''governance'', [''transparency'', ''ethics'', ''compliance'', ''accountability'', ''board'',
                        ''governance'', ''reporting'', ''audit'', ''integrity'', ''policy'', ''oversight''])]"

text \<open>
  The result dictionary of \<open>predict_with_model\<close>. The keys \<open>prediction\<close>, \<open>confidence\<close>,
  \<open>esg_scores\<close> (Environmental, Social, Governance) and \<open>total_score\<close> are always there;
  \<open>features\<close> only on the normal path and \<open>error\<close> only on the exception path.
\<close>

record prediction_result =
  prediction :: string
  confidence :: real
  esg_scores :: "int \<times> int \<times> int"
  total_score :: int
  features :: "(string, int) dict option"
  error :: "error option"

text \<open>The loop over \<open>self.esg_keywords.items()\<close> that fills \<open>features\<close>.\<close>

fun feature_loop :: "(string, string list) dict \<Rightarrow> string \<Rightarrow> (string, int) dict \<Rightarrow> (string, int) dict" where
  "feature_loop [] text_lower feats = feats"
| "feature_loop ((category, keywords) # items) text_lower feats =
     feature_loop items text_lower
       (setitem feats (category @ ''_score'') (keyword_sum text_lower keywords))"

text \<open>
  The confidence computed from \<open>scores = [environment, social, governance]\<close>:
  \<open>min(max(scores) / sum(scores), 1.0)\<close> if \<open>max(scores) > 0\<close>, else \<open>0.1\<close>.
\<close>

definition score_confidence :: "int \<Rightarrow> int \<Rightarrow> int \<Rightarrow> error + real" where
  "score_confidence e s g =
     (if max e (max s g) > 0
      then and_then (truediv (max e (max s g)) (e + s + g)) (\<lambda>q. Inr (min q 1))
      else Inr (1 / 10))"

text \<open>The body of the \<open>try\<close> block.\<close>

definition predict_try :: "(string, string list) dict \<Rightarrow> string \<Rightarrow> error + prediction_result" where
  "predict_try kws business_text =
     (let text_lower = str_lower business_text;
          feats = feature_loop kws text_lower [];
          tot = sum_list (dict_values feats);
          feats' = setitem feats ''total_esg'' tot;
          rating = (if tot < 200 then ''Low''
                    else if tot < 600 then ''Medium''
                    else ''High'')
      in and_then (getitem feats' ''environment_score'') (\<lambda>e.
         and_then (getitem feats' ''social_score'') (\<lambda>s.
         and_then (getitem feats' ''governance_score'') (\<lambda>g.
         and_then (score_confidence e s g) (\<lambda>conf.
         Inr \<lparr>prediction = rating, confidence = conf, esg_scores = (e, s, g),
              total_score = tot, features = Some feats', error = None\<rparr>)))))"

text \<open>\<open>predict_with_model\<close>: every exception of the body becomes the error result.\<close>

definition predict_with_model :: "(string, string list) dict \<Rightarrow> string \<Rightarrow> prediction_result" where
  "predict_with_model kws business_text =
     (case predict_try kws business_text of
        Inr r \<Rightarrow> r
      | Inl err \<Rightarrow> \<lparr>prediction = ''Error'', confidence = 0, esg_scores = (0, 0, 0),
                     total_score = 0, features = None, error = Some err\<rparr>)"

section \<open>The scorer and the confidence estimator as they are described\<close>

text \<open>
  The count of a category as the description words it: the text is lower-cased once, and
  the count is the sum, over the keywords the index holds for the category, of the
  occurrences of the keyword in that text.
\<close>

definition category_count :: "(string, string list) dict \<Rightarrow> string \<Rightarrow> string \<Rightarrow> error + int" where
  "category_count index category text =
     and_then (getitem index category)
       (\<lambda>keywords. Inr (sum_list (map (\<lambda>kw. str_count (str_lower text) kw) keywords)))"

text \<open>
  The confidence as the description words it: the constant 0.1 for a total of zero, else
  the largest of the three counts divided by the total, a float division, clamped to 1.
\<close>

definition spec_confidence :: "int \<Rightarrow> int \<Rightarrow> int \<Rightarrow> real" where
  "spec_confidence e s g =
     (if e + s + g = 0 then 1 / 10
      else min (nearest_double (max e (max s g)) (e + s + g)) 1)"

text \<open>The double nearest to 1/3, which Python prints as 0.3333333333333333.\<close>

definition third_double :: real where
  "third_double = 6004799503160661 / 2 ^ 54"

section \<open>Occurrences of a keyword in a text\<close>

text \<open>
  The notions the description of the scorer is worded in. A keyword occurs in a text at
  position \<open>i\<close> if the text, read from \<open>i\<close> on, starts with the keyword. A list of
  positions is a family of non-overlapping occurrences from \<open>lo\<close> on if it is ascending,
  starts at \<open>lo\<close> or later, every position is an occurrence and each occurrence ends before
  the next one begins. \<open>match_positions\<close> lists the positions at which the scan of
  \<open>count_scan\<close> counts a match.
\<close>

definition occurs_at :: "string \<Rightarrow> string \<Rightarrow> nat \<Rightarrow> bool" where
  "occurs_at s sub i = (take (length sub) (drop i s) = sub)"

fun disjoint_occurrences :: "string \<Rightarrow> string \<Rightarrow> nat \<Rightarrow> nat list \<Rightarrow> bool" where
  "disjoint_occurrences s sub lo [] = True"
| "disjoint_occurrences s sub lo (p # ps) =
     (lo \<le> p \<and> occurs_at s sub p \<and> disjoint_occurrences s sub (p + length sub) ps)"

fun match_positions :: "string \<Rightarrow> string \<Rightarrow> nat \<Rightarrow> nat list" where
  "match_positions [] sub off = []"
| "match_positions (c # cs) sub off =
     (if sub \<noteq> [] \<and> startswith (c # cs) sub
      then off # match_positions (drop (length sub - 1) cs) sub (off + length sub)
      else match_positions cs sub (Suc off))"

section \<open>Properties of the scan\<close>

lemma startswith_take: "startswith s sub = (take (length sub) s = sub)"
  by (induction s sub rule: startswith.induct) auto

lemma occurs_at_0: "occurs_at s sub 0 = startswith s sub"
  by (simp add: occurs_at_def startswith_take)

lemma occurs_at_Nil: "sub \<noteq> [] \<Longrightarrow> \<not> occurs_at [] sub i"
  by (auto simp add: occurs_at_def)

lemma occurs_at_drop: "k \<le> p \<Longrightarrow> occurs_at (drop k s) sub (p - k) = occurs_at s sub p"
  by (simp add: occurs_at_def)

lemma disjoint_occurrences_mono:
  "disjoint_occurrences s sub lo ps \<Longrightarrow> lo' \<le> lo \<Longrightarrow> disjoint_occurrences s sub lo' ps"
  by (cases ps) auto

lemma disjoint_occurrences_drop:
  "disjoint_occurrences s sub lo ps \<Longrightarrow> k \<le> lo \<Longrightarrow>
   disjoint_occurrences (drop k s) sub (lo - k) (map (\<lambda>p. p - k) ps)"
proof (induction ps arbitrary: lo)
  case Nil
  then show ?case by simp
next
  case (Cons p ps)
  from Cons.prems have le: "lo \<le> p" and occ: "occurs_at s sub p"
    and rest: "disjoint_occurrences s sub (p + length sub) ps"
    by simp_all
  from Cons.prems(2) le have kp: "k \<le> p" by simp
  then have "k \<le> p + length sub" by simp
  from Cons.IH [OF rest this]
  have step: "disjoint_occurrences (drop k s) sub (p + length sub - k) (map (\<lambda>p. p - k) ps)" .
  from kp have eq: "p + length sub - k = p - k + length sub" by simp
  from step have c: "disjoint_occurrences (drop k s) sub (p - k + length sub) (map (\<lambda>p. p - k) ps)"
    unfolding eq .
  from le have a: "lo - k \<le> p - k" by (rule diff_le_mono)
  from occ kp have b: "occurs_at (drop k s) sub (p - k)" by (simp only: occurs_at_drop)
  from a b c show ?case by simp
qed

lemma disjoint_occurrences_bound:
  "sub \<noteq> [] \<Longrightarrow> disjoint_occurrences s sub 0 ps \<Longrightarrow> length ps \<le> count_scan s sub"
proof (induction s sub arbitrary: ps rule: count_scan.induct)
  case (1 sub)
  then show ?case by (cases ps) (simp_all add: occurs_at_Nil)
next
  case (2 c cs sub)
  show ?case
  proof (cases ps)
    case Nil
    then show ?thesis by simp
  next
    case (Cons p ps')
    with "2.prems" have occ: "occurs_at (c # cs) sub p"
      and rest: "disjoint_occurrences (c # cs) sub (p + length sub) ps'"
      by simp_all
    show ?thesis
    proof (cases "startswith (c # cs) sub")
      case True
      from rest have "disjoint_occurrences (c # cs) sub (length sub) ps'"
        by (rule disjoint_occurrences_mono) simp
      from disjoint_occurrences_drop [OF this, of "length sub"]
      have "disjoint_occurrences (drop (length sub) (c # cs)) sub 0 (map (\<lambda>p. p - length sub) ps')"
        by simp
      moreover from "2.prems"(1) have "drop (length sub) (c # cs) = drop (length sub - 1) cs"
        by (cases sub) simp_all
      ultimately have "disjoint_occurrences (drop (length sub - 1) cs) sub 0 (map (\<lambda>p. p - length sub) ps')"
        by simp
      from "2.IH"(1) [OF _ "2.prems"(1) this] True "2.prems"(1)
      have "length ps' \<le> count_scan (drop (length sub - 1) cs) sub" by simp
      with True "2.prems"(1) Cons show ?thesis by simp
    next
      case False
      have "p \<noteq> 0"
      proof
        assume "p = 0"
        with occ have "startswith (c # cs) sub" by (simp add: occurs_at_0)
        with False show False by simp
      qed
      with "2.prems"(2) Cons have "disjoint_occurrences (c # cs) sub 1 ps" by simp
      from disjoint_occurrences_drop [OF this, of 1]
      have "disjoint_occurrences cs sub 0 (map (\<lambda>p. p - 1) ps)" by simp
      from "2.IH"(2) [OF _ "2.prems"(1) this] False
      have "length ps \<le> count_scan cs sub" by simp
      with False show ?thesis by simp
    qed
  qed
qed

lemma length_match_positions: "length (match_positions s sub off) = count_scan s sub"
  by (induction s sub off rule: match_positions.induct) auto

lemma match_positions_disjoint:
  "drop off full = s \<Longrightarrow> disjoint_occurrences full sub off (match_positions s sub off)"
proof (induction s sub off rule: match_positions.induct)
  case (1 sub off)
  then show ?case by simp
next
  case (2 c cs sub off)
  show ?case
  proof (cases "sub \<noteq> [] \<and> startswith (c # cs) sub")
    case True
    then have ne: "sub \<noteq> []" and sw: "startswith (c # cs) sub" by simp_all
    from sw "2.prems" have occ: "occurs_at full sub off"
      by (simp add: occurs_at_def startswith_take)
    have "drop (off + length sub) full = drop (length sub) (drop off full)"
      by (simp add: add.commute)
    also from "2.prems" ne have "\<dots> = drop (length sub - 1) cs"
      by (cases sub) simp_all
    finally have "drop (off + length sub) full = drop (length sub - 1) cs" .
    from "2.IH"(1) [OF True this] occ True show ?thesis by simp
  next
    case False
    have "drop (Suc off) full = tl (drop off full)"
      by (simp add: drop_Suc tl_drop)
    with "2.prems" have "drop (Suc off) full = cs" by simp
    from "2.IH"(2) [OF False this]
    have "disjoint_occurrences full sub (Suc off) (match_positions cs sub (Suc off))" .
    then have "disjoint_occurrences full sub off (match_positions cs sub (Suc off))"
      by (rule disjoint_occurrences_mono) simp
    with False show ?thesis by auto
  qed
qed

lemma occurs_at_substring: "occurs_at s sub i \<Longrightarrow> \<exists>pre post. s = pre @ sub @ post"
proof -
  assume occ: "occurs_at s sub i"
  have "drop i s = take (length sub) (drop i s) @ drop (length sub) (drop i s)"
    by (rule append_take_drop_id [symmetric])
  with occ have "drop i s = sub @ drop (length sub) (drop i s)"
    by (simp only: occurs_at_def)
  then have "take i s @ drop i s = take i s @ sub @ drop (length sub) (drop i s)"
    by (simp only:)
  then have "s = take i s @ sub @ drop (length sub) (drop i s)"
    by (simp only: append_take_drop_id)
  then show ?thesis by blast
qed

lemma substring_occurs_at: "occurs_at (pre @ sub @ post) sub (length pre)"
  by (simp add: occurs_at_def)

lemma count_scan_pos_iff:
  assumes "sub \<noteq> []"
  shows "(0 < count_scan s sub) = (\<exists>pre post. s = pre @ sub @ post)"
proof
  assume pos: "0 < count_scan s sub"
  have dis: "disjoint_occurrences s sub 0 (match_positions s sub 0)"
    by (rule match_positions_disjoint) simp
  from pos have "match_positions s sub 0 \<noteq> []"
    using length_match_positions [of s sub 0] by auto
  then obtain p ps where "match_positions s sub 0 = p # ps"
    by (cases "match_positions s sub 0") auto
  with dis have "occurs_at s sub p" by simp
  then show "\<exists>pre post. s = pre @ sub @ post" by (rule occurs_at_substring)
next
  assume "\<exists>pre post. s = pre @ sub @ post"
  then obtain pre post where s: "s = pre @ sub @ post" by blast
  have "disjoint_occurrences s sub 0 [length pre]"
    unfolding s using substring_occurs_at [of pre sub post] by simp
  from disjoint_occurrences_bound [OF assms this] show "0 < count_scan s sub" by simp
qed

lemma str_count_pos_iff:
  "sub \<noteq> [] \<Longrightarrow> (0 < str_count s sub) = (\<exists>pre post. s = pre @ sub @ post)"
  by (simp add: str_count_def count_scan_pos_iff)

lemma str_count_nonneg: "0 \<le> str_count s sub"
  by (simp add: str_count_def)

lemma keyword_sum_nonneg: "0 \<le> keyword_sum t ks"
  unfolding keyword_sum_def by (rule sum_list_nonneg) (auto simp add: str_count_nonneg)

lemma keyword_sum_zero:
  "list_all (\<lambda>kw. kw \<noteq> [] \<and> \<not> (\<exists>pre post. t = pre @ kw @ post)) ks \<Longrightarrow> keyword_sum t ks = 0"
proof (induction ks)
  case Nil
  then show ?case by (simp add: keyword_sum_def)
next
  case (Cons k ks)
  then have ne: "k \<noteq> []" and no: "\<not> (\<exists>pre post. t = pre @ k @ post)"
    and rest: "keyword_sum t ks = 0"
    by simp_all
  from ne no have "\<not> 0 < str_count t k" by (simp only: str_count_pos_iff not_False_eq_True)
  with str_count_nonneg [of t k] have "str_count t k = 0" by simp
  with rest show ?case by (simp add: keyword_sum_def)
qed

section \<open>Properties of the division and of the column sum\<close>

lemma bit_length_1: "bit_length 1 = 1"
  by code_simp

lemma bit_length_2: "bit_length 2 = 2"
  by code_simp

lemma div_ge: "K * d \<le> n \<Longrightarrow> 0 < d \<Longrightarrow> K \<le> n div d" for n d K :: int
  using zdiv_mono1 by fastforce

lemma div_lt:
  fixes n d K :: int
  assumes "n < K * d" and "0 < d"
  shows "n div d < K"
proof (rule ccontr)
  assume "\<not> n div d < K"
  then have "K \<le> n div d" by simp
  with assms(2) have "K * d \<le> (n div d) * d" by (simp add: mult_right_mono)
  moreover have "(n div d) * d \<le> n"
    using assms(2) pos_mod_sign [of d n] div_mult_mod_eq [of n d] by linarith
  ultimately show False using assms(1) by simp
qed

lemma div_eq:
  fixes n d q :: int
  assumes "q * d \<le> n" and "n < (q + 1) * d" and "0 < d"
  shows "n div d = q"
  using div_ge [OF assms(1) assms(3)] div_lt [OF assms(2) assms(3)] by simp

lemma round_half_even_bounds:
  "n div d \<le> round_half_even n d \<and> round_half_even n d \<le> n div d + 1"
  by (simp add: round_half_even_def Let_def)

lemma round_half_even_error:
  assumes "0 < d"
  shows "\<bar>2 * (round_half_even n d * d - n)\<bar> \<le> d"
proof -
  define q where "q = n div d"
  define r where "r = n mod d"
  have n: "n = q * d + r" by (simp add: q_def r_def)
  from assms have r: "0 \<le> r" "r < d" by (simp_all add: r_def)
  have m: "round_half_even n d =
      (if 2 * r < d then q else if d < 2 * r then q + 1 else if even q then q else q + 1)"
    by (simp add: round_half_even_def Let_def q_def r_def)
  have "\<bar>2 * ((if 2 * r < d then q else if d < 2 * r then q + 1 else if even q then q else q + 1) * d
      - (q * d + r))\<bar> \<le> d"
    using r by (auto simp add: algebra_simps)
  then show ?thesis unfolding m using n by simp
qed

lemma nearest_double_fraction:
  assumes "0 < a" and "0 < b" and "floor_log2 a b = - int k" and "k \<le> 1022"
  shows "nearest_double a b =
     real_of_int (round_half_even (a * 2 ^ (52 + k)) b) / 2 ^ (52 + k)"
proof -
  from assms(4) have q: "max (- int k) (- 1022) - 52 = - int (52 + k)" by simp
  have neg: "\<not> 0 \<le> - int (52 + k)" by simp
  from assms(1,2) show ?thesis
    unfolding nearest_double_def Let_def by (simp add: assms(3) q neg del: of_nat_add)
qed

text \<open>
  \<open>floor_log2\<close> gives the binary exponent of the quotient: \<open>2 ^ e \<le> n / d < 2 ^ (e + 1)\<close>,
  written without division.
\<close>

lemma bit_length_bounds:
  "0 < n \<Longrightarrow> 0 < bit_length n \<and> 2 ^ nat (bit_length n - 1) \<le> n \<and> n < 2 ^ nat (bit_length n)"
proof (induction n rule: bit_length.induct)
  case (1 n)
  show ?case
  proof (cases "n = 1")
    case True
    then show ?thesis by (simp add: bit_length_1)
  next
    case False
    with "1.prems" have h: "0 < n div 2" by simp
    from "1.prems" have "\<not> n \<le> 0" by simp
    from "1.IH" [OF this h]
    have ih: "0 < bit_length (n div 2)" "2 ^ nat (bit_length (n div 2) - 1) \<le> n div 2"
      "n div 2 < 2 ^ nat (bit_length (n div 2))"
      by simp_all
    from "1.prems" have bl: "bit_length n = 1 + bit_length (n div 2)"
      by (subst bit_length.simps) simp
    from ih(1) have e1: "nat (1 + bit_length (n div 2) - 1) = Suc (nat (bit_length (n div 2) - 1))"
      by simp
    from ih(1) have e2: "nat (1 + bit_length (n div 2)) = Suc (nat (bit_length (n div 2)))"
      by simp
    from ih(2) have "2 * 2 ^ nat (bit_length (n div 2) - 1) \<le> n" by simp
    moreover from ih(3) have "n < 2 * 2 ^ nat (bit_length (n div 2))" by simp
    ultimately show ?thesis using ih(1) unfolding bl e1 e2 by simp
  qed
qed

lemma div_bracket:
  fixes n d :: int
  assumes "0 < d"
  shows "(n div d) * d \<le> n \<and> n < (n div d + 1) * d"
proof -
  from assms have "0 \<le> n mod d" and "n mod d < d" by simp_all
  moreover have "(n div d) * d + n mod d = n" by simp
  moreover have "(n div d + 1) * d = (n div d) * d + d" by (simp add: algebra_simps)
  ultimately show ?thesis by linarith
qed

lemma floor_log2_brackets:
  assumes "0 < n" and "0 < d"
  shows "(0 \<le> floor_log2 n d \<longrightarrow>
            2 ^ nat (floor_log2 n d) * d \<le> n \<and> n < 2 * 2 ^ nat (floor_log2 n d) * d) \<and>
         (floor_log2 n d < 0 \<longrightarrow>
            d \<le> n * 2 ^ nat (- floor_log2 n d) \<and> n * 2 ^ nat (- floor_log2 n d) < 2 * d)"
proof (cases "d \<le> n")
  case True
  define k where "k = n div d"
  from True assms have k: "0 < k" by (simp add: k_def pos_imp_zdiv_pos_iff)
  note b = bit_length_bounds [OF k]
  from b have pos: "0 < bit_length k" by blast
  from True have e: "floor_log2 n d = bit_length k - 1" by (simp add: floor_log2_def k_def)
  have kd: "k * d \<le> n" "n < (k + 1) * d"
    using div_bracket [OF assms(2), of n] by (simp_all add: k_def)
  from b assms(2) have "2 ^ nat (bit_length k - 1) * d \<le> k * d" by (simp add: mult_right_mono)
  with kd(1) have lo: "2 ^ nat (bit_length k - 1) * d \<le> n" by simp
  from b have "k + 1 \<le> 2 ^ nat (bit_length k)" by simp
  with assms(2) have "(k + 1) * d \<le> 2 ^ nat (bit_length k) * d" by (simp add: mult_right_mono)
  with kd(2) have "n < 2 ^ nat (bit_length k) * d" by simp
  moreover from pos have "nat (bit_length k) = Suc (nat (bit_length k - 1))" by simp
  ultimately have hi: "n < 2 * 2 ^ nat (bit_length k - 1) * d" by simp
  from b lo hi show ?thesis unfolding e by simp
next
  case False
  define k where "k = (d - 1) div n"
  from False assms have k: "0 < k" by (simp add: k_def pos_imp_zdiv_pos_iff)
  note b = bit_length_bounds [OF k]
  from b have pos: "0 < bit_length k" by blast
  from False have e: "floor_log2 n d = - bit_length k" by (simp add: floor_log2_def k_def)
  have kd: "k * n \<le> d - 1" "d - 1 < (k + 1) * n"
    using div_bracket [OF assms(1), of "d - 1"] by (simp_all add: k_def)
  from b have "k + 1 \<le> 2 ^ nat (bit_length k)" by simp
  with assms(1) have "(k + 1) * n \<le> 2 ^ nat (bit_length k) * n" by (simp add: mult_right_mono)
  with kd(2) have lo: "d \<le> n * 2 ^ nat (bit_length k)" by (simp add: mult.commute)
  from b assms(1) have "2 ^ nat (bit_length k - 1) * n \<le> k * n" by (simp add: mult_right_mono)
  with kd(1) have "2 ^ nat (bit_length k - 1) * n < d" by simp
  moreover from pos have "nat (bit_length k) = Suc (nat (bit_length k - 1))" by simp
  ultimately have hi: "n * 2 ^ nat (bit_length k) < 2 * d" by (simp add: mult.commute)
  from b lo hi show ?thesis unfolding e by simp
qed

lemma floor_log2_same: "0 < a \<Longrightarrow> floor_log2 a a = 0"
  by (simp add: floor_log2_def bit_length_1)

lemma floor_log2_half:
  assumes "0 < a" and "a < b" and "b \<le> 2 * a"
  shows "floor_log2 a b = - 1"
proof -
  from assms have "(b - 1) div a = 1" by (intro div_eq) simp_all
  with assms show ?thesis by (simp add: floor_log2_def bit_length_1)
qed

lemma floor_log2_third:
  assumes "0 < a" and "2 * a < b" and "b \<le> 3 * a"
  shows "floor_log2 a b = - 2"
proof -
  from assms have "(b - 1) div a = 2" by (intro div_eq) simp_all
  with assms show ?thesis by (simp add: floor_log2_def bit_length_2)
qed

lemma abs_twice: "\<bar>2 * x - 2 * y\<bar> \<le> c \<Longrightarrow> \<bar>x - y\<bar> * 2 \<le> c" for x y c :: real
  by (auto simp add: abs_if split: if_splits)

lemma rounded_error:
  fixes a b m :: int and k :: nat
  assumes "0 < b" and "\<bar>2 * (m * b - a * 2 ^ k)\<bar> \<le> b"
  shows "\<bar>real_of_int m / 2 ^ k - real_of_int a / real_of_int b\<bar> \<le> 1 / 2 ^ (k + 1)"
proof -
  from assms(2) have "real_of_int \<bar>2 * (m * b - a * 2 ^ k)\<bar> \<le> real_of_int b"
    by (simp only: of_int_le_iff)
  then have "\<bar>2 * (real_of_int m * real_of_int b) - 2 * (real_of_int a * 2 ^ k)\<bar> \<le> real_of_int b"
    by simp
  then have e: "\<bar>real_of_int m * real_of_int b - real_of_int a * 2 ^ k\<bar> * 2 \<le> real_of_int b"
    by (rule abs_twice)
  have pos: "0 < real_of_int b * 2 ^ k" using assms(1) by simp
  have "real_of_int m / 2 ^ k - real_of_int a / real_of_int b =
      (real_of_int m * real_of_int b - real_of_int a * 2 ^ k) / (real_of_int b * 2 ^ k)"
    using assms(1) by (simp add: field_simps)
  then have "\<bar>real_of_int m / 2 ^ k - real_of_int a / real_of_int b\<bar> =
      \<bar>real_of_int m * real_of_int b - real_of_int a * 2 ^ k\<bar> / (real_of_int b * 2 ^ k)"
    using pos by (simp add: abs_divide del: of_int_mult)
  also have "\<dots> \<le> (real_of_int b / 2) / (real_of_int b * 2 ^ k)"
    using e pos by (intro divide_right_mono) simp_all
  also have "\<dots> = 1 / 2 ^ (k + 1)"
    using assms(1) by simp
  finally show ?thesis .
qed

lemma nearest_double_same:
  assumes "0 < a"
  shows "nearest_double a a = 1"
proof -
  from assms have "floor_log2 a a = - int 0" by (simp add: floor_log2_same)
  from nearest_double_fraction [OF assms assms this]
  have "nearest_double a a = real_of_int (round_half_even (a * 2 ^ 52) a) / 2 ^ 52" by simp
  moreover from assms have "round_half_even (a * 2 ^ 52) a = 2 ^ 52"
    by (simp add: round_half_even_def Let_def)
  ultimately show ?thesis by simp
qed

lemma nearest_double_half:
  assumes "0 < a" and "a < b" and "b \<le> 2 * a"
  shows "1 / 2 \<le> nearest_double a b \<and> nearest_double a b \<le> 1 \<and>
    \<bar>nearest_double a b - real_of_int a / real_of_int b\<bar> \<le> 1 / 2 ^ 54"
proof -
  define m where "m = round_half_even (a * 2 ^ 53) b"
  from assms have b: "0 < b" by simp
  from assms have "floor_log2 a b = - int 1" by (simp add: floor_log2_half)
  from nearest_double_fraction [OF assms(1) b this]
  have nd: "nearest_double a b = real_of_int m / 2 ^ 53" by (simp add: m_def)
  from assms have "2 ^ 52 * b \<le> a * 2 ^ 53" by simp
  from div_ge [OF this b] have "2 ^ 52 \<le> m"
    using round_half_even_bounds [of "a * 2 ^ 53" b] by (simp add: m_def)
  then have lo: "2 ^ 52 \<le> real_of_int m" by (metis of_int_le_iff of_int_numeral of_int_power)
  from assms have "a * 2 ^ 53 < 2 ^ 53 * b" by simp
  from div_lt [OF this b] have "m \<le> 2 ^ 53"
    using round_half_even_bounds [of "a * 2 ^ 53" b] by (simp add: m_def)
  then have hi: "real_of_int m \<le> 2 ^ 53" by (metis of_int_le_iff of_int_numeral of_int_power)
  from round_half_even_error [OF b, of "a * 2 ^ 53"]
  have "\<bar>2 * (m * b - a * 2 ^ 53)\<bar> \<le> b" by (simp add: m_def)
  from rounded_error [OF b this]
  have err: "\<bar>real_of_int m / 2 ^ 53 - real_of_int a / real_of_int b\<bar> \<le> 1 / 2 ^ 54" by simp
  from lo hi err show ?thesis unfolding nd by simp
qed

lemma nearest_double_third:
  assumes "0 < a" and "2 * a < b" and "b \<le> 3 * a"
  shows "third_double \<le> nearest_double a b \<and> nearest_double a b \<le> 1 / 2 \<and>
    \<bar>nearest_double a b - real_of_int a / real_of_int b\<bar> \<le> 1 / 2 ^ 55"
proof -
  define m where "m = round_half_even (a * 2 ^ 54) b"
  from assms have b: "0 < b" by simp
  from assms have "floor_log2 a b = - int 2" by (simp add: floor_log2_third)
  from nearest_double_fraction [OF assms(1) b this]
  have nd: "nearest_double a b = real_of_int m / 2 ^ 54" by (simp add: m_def)
  from assms have "6004799503160661 * b \<le> a * 2 ^ 54" by simp
  from div_ge [OF this b] have "6004799503160661 \<le> m"
    using round_half_even_bounds [of "a * 2 ^ 54" b] by (simp add: m_def)
  then have lo: "6004799503160661 \<le> real_of_int m" by (metis of_int_le_iff of_int_numeral)
  from assms have "a * 2 ^ 54 < 2 ^ 53 * b" by simp
  from div_lt [OF this b] have "m \<le> 2 ^ 53"
    using round_half_even_bounds [of "a * 2 ^ 54" b] by (simp add: m_def)
  then have hi: "real_of_int m \<le> 2 ^ 53" by (metis of_int_le_iff of_int_numeral of_int_power)
  from round_half_even_error [OF b, of "a * 2 ^ 54"]
  have "\<bar>2 * (m * b - a * 2 ^ 54)\<bar> \<le> b" by (simp add: m_def)
  from rounded_error [OF b this]
  have err: "\<bar>real_of_int m / 2 ^ 54 - real_of_int a / real_of_int b\<bar> \<le> 1 / 2 ^ 55" by simp
  from lo hi err show ?thesis unfolding nd third_double_def by simp
qed

lemma nearest_double_unit:
  assumes "0 < a" and "a \<le> b" and "b \<le> 3 * a"
  shows "third_double \<le> nearest_double a b \<and> nearest_double a b \<le> 1 \<and>
    \<bar>nearest_double a b - real_of_int a / real_of_int b\<bar> \<le> 1 / 2 ^ 54"
proof -
  consider "a = b" | "a < b" "b \<le> 2 * a" | "2 * a < b" using assms(2) by linarith
  then show ?thesis
  proof cases
    case 1
    with assms(1) nearest_double_same [OF assms(1)] show ?thesis
      by (simp add: third_double_def)
  next
    case 2
    from nearest_double_half [OF assms(1) this] show ?thesis
      by (simp add: third_double_def)
  next
    case 3
    from nearest_double_third [OF assms(1) this assms(3)] show ?thesis
      by simp
  qed
qed

lemma confidence_quotient:
  assumes "0 \<le> e" and "0 \<le> s" and "0 \<le> g" and "0 < e + s + g"
  shows "truediv (max e (max s g)) (e + s + g) = Inr (nearest_double (max e (max s g)) (e + s + g)) \<and>
    third_double \<le> nearest_double (max e (max s g)) (e + s + g) \<and>
    nearest_double (max e (max s g)) (e + s + g) \<le> 1 \<and>
    \<bar>nearest_double (max e (max s g)) (e + s + g) -
       real_of_int (max e (max s g)) / real_of_int (e + s + g)\<bar> \<le> 1 / 2 ^ 54"
proof -
  define m where "m = max e (max s g)"
  define t where "t = e + s + g"
  from assms have m: "0 < m" "m \<le> t" "t \<le> 3 * m" by (simp_all add: m_def t_def)
  note u = nearest_double_unit [OF m]
  from u have "0 \<le> nearest_double m t" by (simp add: third_double_def)
  with u have "\<bar>nearest_double m t\<bar> \<le> 1" by simp
  then have "\<not> 2 ^ 1024 \<le> \<bar>nearest_double m t\<bar>" by simp
  with m have "truediv m t = Inr (nearest_double m t)" by (simp add: truediv_def)
  with u show ?thesis unfolding m_def t_def by simp
qed

lemma wrap_int64_id: "- (2 ^ 63) \<le> x \<Longrightarrow> x < 2 ^ 63 \<Longrightarrow> wrap_int64 x = x"
  by (simp add: wrap_int64_def)

lemma wrap_int64_add: "wrap_int64 (wrap_int64 x + y) = wrap_int64 (x + y)"
proof -
  have "(wrap_int64 x + y + 2 ^ 63) mod 2 ^ 64 = ((x + 2 ^ 63) mod 2 ^ 64 + y) mod 2 ^ 64"
    by (simp add: wrap_int64_def)
  also have "\<dots> = (x + 2 ^ 63 + y) mod 2 ^ 64" by (rule mod_add_left_eq)
  also have "x + 2 ^ 63 + y = x + y + 2 ^ 63" by simp
  finally show ?thesis by (simp add: wrap_int64_def)
qed

lemma total_esg_in_range:
  "- (2 ^ 63) \<le> a + b + c \<Longrightarrow> a + b + c < 2 ^ 63 \<Longrightarrow> total_esg a b c = a + b + c"
  by (simp add: total_esg_def wrap_int64_add wrap_int64_id)

lemma total_esg_wraps: "total_esg 9223372036854775807 1 0 = - 9223372036854775808"
  by (simp add: total_esg_def wrap_int64_def)

section \<open>Properties of the scorer\<close>

lemma lower_char_idem: "lower_char (lower_char c) = lower_char c"
  by (auto simp add: lower_char_def Let_def)

lemma str_lower_idem: "str_lower (str_lower s) = str_lower s"
  by (simp add: str_lower_def lower_char_idem)

lemma score_confidence_spec:
  assumes "0 \<le> e" and "0 \<le> s" and "0 \<le> g"
  shows "score_confidence e s g = Inr (spec_confidence e s g)"
proof (cases "0 < e + s + g")
  case True
  with assms have "0 < max e (max s g)" by simp
  with True confidence_quotient [OF assms True] show ?thesis
    by (simp add: score_confidence_def spec_confidence_def and_then_def)
next
  case False
  with assms have "e = 0" and "s = 0" and "g = 0" by simp_all
  then show ?thesis by (simp add: score_confidence_def spec_confidence_def)
qed

lemma feature_loop_three:
  "feature_loop [(''environment'', ke), (''social'', ks), (''governance'', kg)] t [] =
     [(''environment_score'', keyword_sum t ke),
      (''social_score'', keyword_sum t ks),
      (''governance_score'', keyword_sum t kg)]"
  by simp

lemma predict_try_three:
  "predict_try [(''environment'', ke), (''social'', ks), (''governance'', kg)] text =
     (let t = str_lower text;
          e = keyword_sum t ke; s = keyword_sum t ks; g = keyword_sum t kg
      in Inr \<lparr>prediction = label_esg (e + s + g), confidence = spec_confidence e s g,
              esg_scores = (e, s, g), total_score = e + s + g,
              features = Some [(''environment_score'', e), (''social_score'', s),
                               (''governance_score'', g), (''total_esg'', e + s + g)],
              error = None\<rparr>)"
  unfolding predict_try_def Let_def feature_loop_three
  by (simp add: getitem_def and_then_def dict_values_def label_esg_def
      score_confidence_spec keyword_sum_nonneg)

lemma predict_with_model_three:
  "predict_with_model [(''environment'', ke), (''social'', ks), (''governance'', kg)] text =
     (let t = str_lower text;
          e = keyword_sum t ke; s = keyword_sum t ks; g = keyword_sum t kg
      in \<lparr>prediction = label_esg (e + s + g), confidence = spec_confidence e s g,
           esg_scores = (e, s, g), total_score = e + s + g,
           features = Some [(''environment_score'', e), (''social_score'', s),
                            (''governance_score'', g), (''total_esg'', e + s + g)],
           error = None\<rparr>)"
  unfolding predict_with_model_def predict_try_three Let_def by simp

lemma esg_scores_three:
  "esg_scores (predict_with_model [(''environment'', ke), (''social'', ks), (''governance'', kg)] text) =
     (keyword_sum (str_lower text) ke, keyword_sum (str_lower text) ks,
      keyword_sum (str_lower text) kg)"
  unfolding predict_with_model_three Let_def by simp


lemma extract_features_eq:
  "extract_features text =
     (case ESG_KEYWORDS of [(_, ke), (_, ks), (_, kg)] \<Rightarrow>
        Inr [(''env_score'', keyword_sum (str_lower text) ke),
             (''soc_score'', keyword_sum (str_lower text) ks),
             (''gov_score'', keyword_sum (str_lower text) kg)])"
  by (simp add: extract_features_def ESG_KEYWORDS_def getitem_def and_then_def Let_def)

lemma absent_keywords:
  "list_all (\<lambda>kw. kw \<noteq> [] \<and> \<not> 0 < str_count t kw) ks \<Longrightarrow>
   list_all (\<lambda>kw. \<not> (\<exists>pre post. t = pre @ kw @ post)) ks"
proof (induction ks)
  case Nil
  then show ?case by simp
next
  case (Cons k ks)
  then have "k \<noteq> []" and "\<not> 0 < str_count t k" by simp_all
  then have "\<not> (\<exists>pre post. t = pre @ k @ post)" by (simp only: str_count_pos_iff not_False_eq_True)
  with Cons show ?case by simp
qed

lemma keyword_lists_nonempty:
  "list_all (\<lambda>kw. kw \<noteq> []) (concat (map snd esg_keywords))"
  by (simp add: esg_keywords_def)





section \<open>The classifier\<close>

text \<open>
  Claim C1. The classifier has two fixed breakpoints: a total below 200 is Low, a total
  from 200 up to 599 is Medium, a total of 600 or more is High. In particular 199 is Low,
  200 and 599 are Medium and 600 is High. The rating that \<open>predict_with_model\<close> computes
  inline is the one \<open>label_esg\<close> gives for its total.
\<close>

theorem label_esg_breakpoints:
  "(t < 200 \<longrightarrow> label_esg t = ''Low'') \<and>
   (200 \<le> t \<and> t < 600 \<longrightarrow> label_esg t = ''Medium'') \<and>
   (600 \<le> t \<longrightarrow> label_esg t = ''High'') \<and>
   label_esg 199 = ''Low'' \<and> label_esg 200 = ''Medium'' \<and>
   label_esg 599 = ''Medium'' \<and> label_esg 600 = ''High'' \<and>
   prediction (predict_with_model esg_keywords text) =
     label_esg (total_score (predict_with_model esg_keywords text))"
  unfolding esg_keywords_def predict_with_model_three Let_def
  by (simp add: label_esg_def)

theorem label_esg_breakpoints_witness:
  "((150::int) < 200 \<and> label_esg 150 = ''Low'') \<and>
   ((200::int) \<le> 300 \<and> (300::int) < 600 \<and> label_esg 300 = ''Medium'') \<and>
   ((600::int) \<le> 700 \<and> label_esg 700 = ''High'')"
  using label_esg_breakpoints [of 150 "[]"] label_esg_breakpoints [of 300 "[]"]
    label_esg_breakpoints [of 700 "[]"]
  by simp

text \<open>
  Claim C10. The classifier is defined on every integer, negative ones included: it
  always answers with one of the three labels, and every negative input is Low.
\<close>

theorem label_esg_total:
  "label_esg n \<in> {''Low'', ''Medium'', ''High''} \<and> (n < 0 \<longrightarrow> label_esg n = ''Low'')"
  by (simp add: label_esg_def)

theorem label_esg_total_witness:
  "label_esg (- 5) \<in> {''Low'', ''Medium'', ''High''} \<and> (- 5 :: int) < 0 \<and> label_esg (- 5) = ''Low''"
  using label_esg_total [of "- 5"]
  by simp

section \<open>The scorer\<close>

text \<open>
  Claim C2. For every text the scorer lower-cases the text once and takes, for each of
  the three categories, the sum over the category's keywords of the number of
  non-overlapping occurrences of the keyword as a substring: for a non-empty keyword
  \<open>str_count\<close> is the size of a family of non-overlapping occurrences, no such family is
  larger, and the count is positive exactly if the keyword is a substring of the text (no
  word boundary is looked at). The text "jobseeker jobseeker" has a social count of 2.
\<close>

theorem scorer_counts_substrings:
  assumes "kw \<noteq> []"
  shows
    "category_count esg_keywords ''environment'' text =
       Inr (fst (esg_scores (predict_with_model esg_keywords text))) \<and>
     category_count esg_keywords ''social'' text =
       Inr (fst (snd (esg_scores (predict_with_model esg_keywords text)))) \<and>
     category_count esg_keywords ''governance'' text =
       Inr (snd (snd (esg_scores (predict_with_model esg_keywords text)))) \<and>
     category_count ESG_KEYWORDS ''environment'' text =
       and_then (extract_features text) (\<lambda>f. getitem f ''env_score'') \<and>
     category_count ESG_KEYWORDS ''social'' text =
       and_then (extract_features text) (\<lambda>f. getitem f ''soc_score'') \<and>
     category_count ESG_KEYWORDS ''governance'' text =
       and_then (extract_features text) (\<lambda>f. getitem f ''gov_score'') \<and>
     (\<exists>ps. disjoint_occurrences t kw 0 ps \<and> int (length ps) = str_count t kw) \<and>
     (\<forall>ps. disjoint_occurrences t kw 0 ps \<longrightarrow> int (length ps) \<le> str_count t kw) \<and>
     (0 < str_count t kw) = (\<exists>pre post. t = pre @ kw @ post) \<and>
     str_count ''jobseeker jobseeker'' ''job'' = 2 \<and>
     and_then (extract_features ''jobseeker jobseeker'') (\<lambda>f. getitem f ''soc_score'') = Inr 2 \<and>
     fst (snd (esg_scores (predict_with_model esg_keywords ''jobseeker jobseeker''))) = 2"
proof -
  have p: "category_count esg_keywords ''environment'' text =
       Inr (fst (esg_scores (predict_with_model esg_keywords text))) \<and>
     category_count esg_keywords ''social'' text =
       Inr (fst (snd (esg_scores (predict_with_model esg_keywords text)))) \<and>
     category_count esg_keywords ''governance'' text =
       Inr (snd (snd (esg_scores (predict_with_model esg_keywords text))))"
    unfolding esg_keywords_def predict_with_model_three Let_def
    by (simp add: category_count_def getitem_def and_then_def keyword_sum_def)
  have x: "category_count ESG_KEYWORDS ''environment'' text =
       and_then (extract_features text) (\<lambda>f. getitem f ''env_score'') \<and>
     category_count ESG_KEYWORDS ''social'' text =
       and_then (extract_features text) (\<lambda>f. getitem f ''soc_score'') \<and>
     category_count ESG_KEYWORDS ''governance'' text =
       and_then (extract_features text) (\<lambda>f. getitem f ''gov_score'')"
    unfolding extract_features_eq
    by (simp add: ESG_KEYWORDS_def category_count_def getitem_def and_then_def keyword_sum_def)
  have "disjoint_occurrences t kw 0 (match_positions t kw 0)"
    by (rule match_positions_disjoint) simp
  moreover from assms have "int (length (match_positions t kw 0)) = str_count t kw"
    by (simp add: str_count_def length_match_positions)
  ultimately have ex: "\<exists>ps. disjoint_occurrences t kw 0 ps \<and> int (length ps) = str_count t kw"
    by blast
  from assms have ub: "\<forall>ps. disjoint_occurrences t kw 0 ps \<longrightarrow> int (length ps) \<le> str_count t kw"
    by (simp add: str_count_def disjoint_occurrences_bound)
  from assms have sub: "(0 < str_count t kw) = (\<exists>pre post. t = pre @ kw @ post)"
    by (rule str_count_pos_iff)
  have e1: "str_count ''jobseeker jobseeker'' ''job'' = 2" by code_simp
  have e2: "and_then (extract_features ''jobseeker jobseeker'') (\<lambda>f. getitem f ''soc_score'') = Inr 2"
    by code_simp
  have e3: "fst (snd (esg_scores (predict_with_model esg_keywords ''jobseeker jobseeker''))) = 2"
    unfolding esg_keywords_def esg_scores_three by code_simp
  from p x ex ub sub e1 e2 e3 show ?thesis by (simp only: simp_thms)
qed

theorem scorer_counts_substrings_witness:
  "''job'' \<noteq> [] \<and>
   disjoint_occurrences ''jobseeker jobseeker'' ''job'' 0 [0, 10] \<and>
   int (length [0, 10 :: nat]) \<le> str_count ''jobseeker jobseeker'' ''job'' \<and>
   category_count esg_keywords ''social'' ''jobseeker jobseeker'' = Inr 2"
proof -
  have ne: "''job'' \<noteq> []" by simp
  have occ: "disjoint_occurrences ''jobseeker jobseeker'' ''job'' 0 [0, 10]" by code_simp
  note inst = scorer_counts_substrings
    [OF ne, of "''jobseeker jobseeker''" "''jobseeker jobseeker''"]
  from inst occ have "int (length [0, 10 :: nat]) \<le> str_count ''jobseeker jobseeker'' ''job''"
    by blast
  moreover from inst have "category_count esg_keywords ''social'' ''jobseeker jobseeker'' = Inr 2"
    by simp
  ultimately show ?thesis using ne occ by blast
qed

text \<open>
  Claim C4. Scoring the empty string raises nothing and gives the all-zero result: scores
  (0, 0, 0), total 0, rating Low, confidence 0.1. No text makes the scorer raise, and a
  text in which no keyword occurs gives that all-zero outcome.
\<close>

theorem empty_text_scores_zero:
  "predict_with_model esg_keywords [] =
     \<lparr>prediction = ''Low'', confidence = 1 / 10, esg_scores = (0, 0, 0), total_score = 0,
      features = Some [(''environment_score'', 0), (''social_score'', 0),
                       (''governance_score'', 0), (''total_esg'', 0)],
      error = None\<rparr> \<and>
   extract_features [] = Inr [(''env_score'', 0), (''soc_score'', 0), (''gov_score'', 0)] \<and>
   error (predict_with_model esg_keywords text) = None \<and>
   prediction (predict_with_model esg_keywords text) \<in> {''Low'', ''Medium'', ''High''} \<and>
   (\<exists>f. extract_features text = Inr f) \<and>
   (list_all (\<lambda>kw. \<not> (\<exists>pre post. str_lower text = pre @ kw @ post))
      (concat (map snd esg_keywords)) \<longrightarrow>
    esg_scores (predict_with_model esg_keywords text) = (0, 0, 0) \<and>
    total_score (predict_with_model esg_keywords text) = 0 \<and>
    prediction (predict_with_model esg_keywords text) = ''Low'' \<and>
    confidence (predict_with_model esg_keywords text) = 1 / 10)"
proof -
  have a: "predict_with_model esg_keywords [] =
     \<lparr>prediction = ''Low'', confidence = 1 / 10, esg_scores = (0, 0, 0), total_score = 0,
      features = Some [(''environment_score'', 0), (''social_score'', 0),
                       (''governance_score'', 0), (''total_esg'', 0)],
      error = None\<rparr>"
    by code_simp
  have b: "extract_features [] = Inr [(''env_score'', 0), (''soc_score'', 0), (''gov_score'', 0)]"
    by code_simp
  have c: "error (predict_with_model esg_keywords text) = None"
    unfolding esg_keywords_def predict_with_model_three Let_def by simp
  have d: "prediction (predict_with_model esg_keywords text) \<in> {''Low'', ''Medium'', ''High''}"
    unfolding esg_keywords_def predict_with_model_three Let_def by (simp add: label_esg_def)
  have e: "\<exists>f. extract_features text = Inr f"
    unfolding extract_features_eq by (simp add: ESG_KEYWORDS_def)
  have f: "esg_scores (predict_with_model esg_keywords text) = (0, 0, 0) \<and>
    total_score (predict_with_model esg_keywords text) = 0 \<and>
    prediction (predict_with_model esg_keywords text) = ''Low'' \<and>
    confidence (predict_with_model esg_keywords text) = 1 / 10"
    if none: "list_all (\<lambda>kw. \<not> (\<exists>pre post. str_lower text = pre @ kw @ post))
      (concat (map snd esg_keywords))"
  proof -
    from none keyword_lists_nonempty
    have all: "list_all (\<lambda>kw. kw \<noteq> [] \<and> \<not> (\<exists>pre post. str_lower text = pre @ kw @ post))
      (concat (map snd esg_keywords))"
      by (simp add: list_all_iff)
    have z: "keyword_sum (str_lower text) ks = 0" if "ks \<in> snd ` set esg_keywords" for ks
    proof (rule keyword_sum_zero)
      from all that show "list_all (\<lambda>kw. kw \<noteq> [] \<and> \<not> (\<exists>pre post. str_lower text = pre @ kw @ post)) ks"
        by (auto simp add: list_all_iff)
    qed
    show ?thesis
      using z unfolding esg_keywords_def predict_with_model_three Let_def
      by (simp add: label_esg_def spec_confidence_def)
  qed
  from a b c d e f show ?thesis by blast
qed

theorem empty_text_scores_zero_witness:
  "list_all (\<lambda>kw. \<not> (\<exists>pre post. str_lower ''Profit margin'' = pre @ kw @ post))
      (concat (map snd esg_keywords)) \<and>
   esg_scores (predict_with_model esg_keywords ''Profit margin'') = (0, 0, 0) \<and>
   total_score (predict_with_model esg_keywords ''Profit margin'') = 0 \<and>
   prediction (predict_with_model esg_keywords ''Profit margin'') = ''Low'' \<and>
   confidence (predict_with_model esg_keywords ''Profit margin'') = 1 / 10 \<and>
   error (predict_with_model esg_keywords ''Profit margin'') = None"
proof -
  have "list_all (\<lambda>kw. kw \<noteq> [] \<and> \<not> 0 < str_count (str_lower ''Profit margin'') kw)
      (concat (map snd esg_keywords))"
    by code_simp
  then have none: "list_all (\<lambda>kw. \<not> (\<exists>pre post. str_lower ''Profit margin'' = pre @ kw @ post))
      (concat (map snd esg_keywords))"
    by (rule absent_keywords)
  with empty_text_scores_zero [of "''Profit margin''"] show ?thesis by simp
qed

text \<open>
  Claim C5. Every score vector the scorer produces is additive: its total is the sum of
  its environment, social and governance counts, for every text. The same sum is what
  label.py stores as \<open>total_esg\<close>, as long as the three scores and their sum are 64-bit
  integers.
\<close>

theorem total_is_sum_of_counts:
  "(case esg_scores (predict_with_model esg_keywords text) of
      (e, s, g) \<Rightarrow>
        total_score (predict_with_model esg_keywords text) = e + s + g \<and>
        0 \<le> e \<and> 0 \<le> s \<and> 0 \<le> g \<and>
        features (predict_with_model esg_keywords text) =
          Some [(''environment_score'', e), (''social_score'', s),
                (''governance_score'', g), (''total_esg'', e + s + g)]) \<and>
   (- (2 ^ 63) \<le> env_score \<and> env_score < 2 ^ 63 \<and>
    - (2 ^ 63) \<le> soc_score \<and> soc_score < 2 ^ 63 \<and>
    - (2 ^ 63) \<le> gov_score \<and> gov_score < 2 ^ 63 \<and>
    - (2 ^ 63) \<le> env_score + soc_score + gov_score \<and>
    env_score + soc_score + gov_score < 2 ^ 63 \<longrightarrow>
    total_esg env_score soc_score gov_score = env_score + soc_score + gov_score)"
  unfolding esg_keywords_def predict_with_model_three Let_def
  by (simp add: total_esg_in_range keyword_sum_nonneg)

theorem total_is_sum_of_counts_witness:
  "esg_scores (predict_with_model esg_keywords ''Solar energy creates jobs'') = (2, 1, 0) \<and>
   total_score (predict_with_model esg_keywords ''Solar energy creates jobs'') = 3 \<and>
   - (2 ^ 63) \<le> (2::int) \<and> (2::int) < 2 ^ 63 \<and> (2::int) + 1 + 0 < 2 ^ 63 \<and>
   total_esg 2 1 0 = 3"
proof -
  have "esg_scores (predict_with_model esg_keywords ''Solar energy creates jobs'') = (2, 1, 0)"
    unfolding esg_keywords_def esg_scores_three by code_simp
  with total_is_sum_of_counts [of "''Solar energy creates jobs''" 2 1 0] show ?thesis by simp
qed

text \<open>
  Claim C6. Scoring ignores case: a text and its lower-cased form get the same result, so
  "CARBON" and "carbon" have the same counts.
\<close>

theorem scoring_ignores_case:
  "predict_with_model kws (str_lower T) = predict_with_model kws T \<and>
   extract_features (str_lower T) = extract_features T \<and>
   esg_scores (predict_with_model esg_keywords (str_lower T)) =
     esg_scores (predict_with_model esg_keywords T) \<and>
   str_lower ''CARBON'' = ''carbon'' \<and>
   esg_scores (predict_with_model esg_keywords ''CARBON'') =
     esg_scores (predict_with_model esg_keywords ''carbon'') \<and>
   extract_features ''CARBON'' = extract_features ''carbon''"
proof -
  have a: "predict_with_model kws (str_lower T) = predict_with_model kws T" for kws T
    by (simp add: predict_with_model_def predict_try_def str_lower_idem)
  have b: "extract_features (str_lower T) = extract_features T" for T
    by (simp add: extract_features_def str_lower_idem)
  have c: "str_lower ''CARBON'' = ''carbon''" by code_simp
  from a [of esg_keywords "''CARBON''"] c
  have d: "esg_scores (predict_with_model esg_keywords ''CARBON'') =
     esg_scores (predict_with_model esg_keywords ''carbon'')"
    by simp
  from b [of "''CARBON''"] c have e: "extract_features ''CARBON'' = extract_features ''carbon''"
    by simp
  from a b c d e show ?thesis by simp
qed

theorem scoring_ignores_case_witness:
  "esg_scores (predict_with_model esg_keywords ''Green JOBS'') = (1, 1, 0) \<and>
   esg_scores (predict_with_model esg_keywords (str_lower ''Green JOBS'')) = (1, 1, 0)"
proof -
  have "esg_scores (predict_with_model esg_keywords ''Green JOBS'') = (1, 1, 0)"
    unfolding esg_keywords_def esg_scores_three by code_simp
  with scoring_ignores_case [of esg_keywords "''Green JOBS''"] show ?thesis by simp
qed

section \<open>The keyword index\<close>



text \<open>
  Claim C8. The keyword table of dataset\_create.py and the one of
  prediction\_validator.py differ, in each of the three categories, and the two scorers
  disagree on the text "solar".
\<close>

theorem keyword_tables_differ:
  "ESG_KEYWORDS \<noteq> esg_keywords \<and>
   getitem ESG_KEYWORDS ''environment'' \<noteq> getitem esg_keywords ''environment'' \<and>
   getitem ESG_KEYWORDS ''social'' \<noteq> getitem esg_keywords ''social'' \<and>
   getitem ESG_KEYWORDS ''governance'' \<noteq> getitem esg_keywords ''governance'' \<and>
   extract_features ''solar'' = Inr [(''env_score'', 0), (''soc_score'', 0), (''gov_score'', 0)] \<and>
   esg_scores (predict_with_model esg_keywords ''solar'') = (1, 0, 0) \<and>
   esg_scores (predict_with_model ESG_KEYWORDS ''solar'') = (0, 0, 0) \<and>
   predict_with_model ESG_KEYWORDS ''solar'' \<noteq> predict_with_model esg_keywords ''solar''"
proof -
  have a: "ESG_KEYWORDS \<noteq> esg_keywords \<and>
   getitem ESG_KEYWORDS ''environment'' \<noteq> getitem esg_keywords ''environment'' \<and>
   getitem ESG_KEYWORDS ''social'' \<noteq> getitem esg_keywords ''social'' \<and>
   getitem ESG_KEYWORDS ''governance'' \<noteq> getitem esg_keywords ''governance''"
    by (simp add: ESG_KEYWORDS_def esg_keywords_def getitem_def)
  have b: "extract_features ''solar'' =
      Inr [(''env_score'', 0), (''soc_score'', 0), (''gov_score'', 0)]"
    by code_simp
  have c: "esg_scores (predict_with_model esg_keywords ''solar'') = (1, 0, 0)"
    unfolding esg_keywords_def esg_scores_three by code_simp
  have d: "esg_scores (predict_with_model ESG_KEYWORDS ''solar'') = (0, 0, 0)"
    unfolding ESG_KEYWORDS_def esg_scores_three by code_simp
  from c d have e: "predict_with_model ESG_KEYWORDS ''solar'' \<noteq> predict_with_model esg_keywords ''solar''"
    by auto
  from a b c d e show ?thesis by (simp only: simp_thms)
qed

section \<open>The confidence\<close>

text \<open>
  Claim C3. For every score vector (three non-negative counts) the confidence is 0.1 when
  the total is 0, and else the largest count divided by the total, clamped to 1; the
  division is Python's, whose result is the double nearest to the quotient and differs
  from it by at most \<open>2 ^ -54\<close>. The confidence lies between 0 and 1, and it is 1 when
  only the environment count is positive. The confidence in the result of
  \<open>predict_with_model\<close> is this value of its three scores.
\<close>

theorem confidence_value:
  assumes "0 \<le> e" and "0 \<le> s" and "0 \<le> g"
  shows
    "score_confidence e s g = Inr (spec_confidence e s g) \<and>
     (e + s + g = 0 \<longrightarrow> score_confidence e s g = Inr (1 / 10)) \<and>
     (e + s + g \<noteq> 0 \<longrightarrow>
        score_confidence e s g =
          Inr (min (nearest_double (max e (max s g)) (e + s + g)) 1) \<and>
        \<bar>nearest_double (max e (max s g)) (e + s + g) -
           real_of_int (max e (max s g)) / real_of_int (e + s + g)\<bar> \<le> 1 / 2 ^ 54) \<and>
     0 \<le> spec_confidence e s g \<and> spec_confidence e s g \<le> 1 \<and>
     (s = 0 \<and> g = 0 \<and> 0 < e \<longrightarrow> score_confidence e s g = Inr 1) \<and>
     confidence (predict_with_model esg_keywords text) =
       (case esg_scores (predict_with_model esg_keywords text) of
          (a, b, c) \<Rightarrow> spec_confidence a b c) \<and>
     0 \<le> confidence (predict_with_model esg_keywords text) \<and>
     confidence (predict_with_model esg_keywords text) \<le> 1"
proof -
  have range: "0 \<le> spec_confidence a b c \<and> spec_confidence a b c \<le> 1"
    if nn: "0 \<le> a" "0 \<le> b" "0 \<le> c" for a b c
  proof (cases "0 < a + b + c")
    case True
    from confidence_quotient [OF nn True] True show ?thesis
      by (simp add: spec_confidence_def third_double_def)
  next
    case False
    with nn have "a + b + c = 0" by simp
    then show ?thesis by (simp add: spec_confidence_def)
  qed
  from assms have eq: "score_confidence e s g = Inr (spec_confidence e s g)"
    by (rule score_confidence_spec)
  have zero: "e + s + g = 0 \<longrightarrow> score_confidence e s g = Inr (1 / 10)"
    unfolding eq by (simp add: spec_confidence_def)
  have nonzero: "e + s + g \<noteq> 0 \<longrightarrow>
        score_confidence e s g =
          Inr (min (nearest_double (max e (max s g)) (e + s + g)) 1) \<and>
        \<bar>nearest_double (max e (max s g)) (e + s + g) -
           real_of_int (max e (max s g)) / real_of_int (e + s + g)\<bar> \<le> 1 / 2 ^ 54"
  proof
    assume "e + s + g \<noteq> 0"
    with assms have pos: "0 < e + s + g" by simp
    from confidence_quotient [OF assms pos] pos show
      "score_confidence e s g =
          Inr (min (nearest_double (max e (max s g)) (e + s + g)) 1) \<and>
        \<bar>nearest_double (max e (max s g)) (e + s + g) -
           real_of_int (max e (max s g)) / real_of_int (e + s + g)\<bar> \<le> 1 / 2 ^ 54"
      unfolding eq by (simp add: spec_confidence_def)
  qed
  have dom: "s = 0 \<and> g = 0 \<and> 0 < e \<longrightarrow> score_confidence e s g = Inr 1"
    unfolding eq by (simp add: spec_confidence_def nearest_double_same)
  have sys: "confidence (predict_with_model esg_keywords text) =
       (case esg_scores (predict_with_model esg_keywords text) of
          (a, b, c) \<Rightarrow> spec_confidence a b c)"
    unfolding esg_keywords_def predict_with_model_three Let_def by simp
  have sysrange: "0 \<le> confidence (predict_with_model esg_keywords text) \<and>
     confidence (predict_with_model esg_keywords text) \<le> 1"
    unfolding esg_keywords_def predict_with_model_three Let_def
    by (simp add: range keyword_sum_nonneg)
  from eq zero nonzero range [OF assms] dom sys sysrange show ?thesis by (simp only: simp_thms)
qed

theorem confidence_value_witness:
  "(0::int) \<le> 3 \<and> (3::int) + 0 + 0 \<noteq> 0 \<and>
   score_confidence 3 0 0 = Inr (min (nearest_double (max 3 (max 0 0)) (3 + 0 + 0)) 1) \<and>
   score_confidence 3 0 0 = Inr 1 \<and>
   score_confidence 0 0 0 = Inr (1 / 10)"
proof -
  have h: "(0::int) \<le> 3" "(0::int) \<le> 0" by simp_all
  note a = confidence_value [OF h(1) h(2) h(2), of "[]"]
  note b = confidence_value [OF h(2) h(2) h(2), of "[]"]
  from a have a1: "score_confidence 3 0 0 = Inr (min (nearest_double (max 3 (max 0 0)) (3 + 0 + 0)) 1)"
    by (simp add: spec_confidence_def)
  from a have a2: "score_confidence 3 0 0 = Inr 1" by auto
  from b have b1: "score_confidence 0 0 0 = Inr (1 / 10)" by auto
  from a1 a2 b1 show ?thesis by simp
qed




end
